theory Spec2Isabelle
  imports Main "HOL-Library.Word" "HOL-Library.Sublist" "HOL-Library.Product_Lexorder"
    "HOL-Library.List_Lexorder"
begin

section \<open>The term generator of conip\<close>

text \<open>
  The program \<^verbatim>\<open>main.go\<close> sends the terms of a de Bruijn sequence B(256, 4) over a channel
  and a sink writes them out. The generator \<^verbatim>\<open>terms\<close> keeps one working word
  \<^verbatim>\<open>u := [4]byte{}\<close>; a byte is an 8-bit machine word whose \<^verbatim>\<open>++\<close> wraps around.
  The channel is modelled by the list of the values sent on it before \<^verbatim>\<open>close(ch)\<close>.
\<close>

type_synonym byte = "8 word"

type_synonym word4 = "byte \<times> byte \<times> byte \<times> byte"

subsection \<open>One iteration of the main loop\<close>

text \<open>
  The last four statements of the loop body, \<^verbatim>\<open>u[3]++\<close> followed by the four sends.
  Both the branch for \<^verbatim>\<open>u[3] != 0xff\<close> and the would-be 3-element branch end here.
\<close>

definition four :: "word4 \<Rightarrow> word4 \<times> byte list" where
  "four u = (case u of (a, b, c, d) \<Rightarrow> ((a, b, c, d + 1), [a, b, c, d + 1]))"

text \<open>
  The loop body: the new working word and the terms sent during the iteration, in order.
  The two \<^verbatim>\<open>continue\<close> branches return directly; the would-be 3-element branch
  performs \<^verbatim>\<open>u[2]++; u[3] = u[0]\<close> and falls through to \<^const>\<open>four\<close>.
\<close>

definition body :: "word4 \<Rightarrow> word4 \<times> byte list" where
  "body u = (case u of (a, b, c, d) \<Rightarrow>
     if d = 255 then
       if c = 255 then
         if b = 255 then ((a + 1, a + 1, a + 1, a + 1), [a + 1])
         else ((a, b + 1, a, b + 1), [a, b + 1])
       else four (a, b, c + 1, a)
     else four (a, b, c, d))"

text \<open>The working word read as a big-endian 32-bit number.\<close>

definition val :: "word4 \<Rightarrow> nat" where
  "val u = (case u of (a, b, c, d) \<Rightarrow>
     unat a * 16777216 + unat b * 65536 + unat c * 256 + unat d)"

lemma unat_byte_lt: "unat (x :: byte) < 256"
  using unsigned_less [of x, where 'a = nat] by simp

lemma unat_byte_255: "(x :: byte) = 255 \<longleftrightarrow> unat x = 255"
  by (simp add: word_unat_eq_iff)

lemma unat_inc: "(x :: byte) \<noteq> 255 \<Longrightarrow> unat (x + 1) = unat x + 1"
  using unat_byte_lt [of x] by (simp add: unat_word_ariths unat_byte_255)

lemma val_lt: "val u < 4294967296"
  using unat_byte_lt [of "fst u"] unat_byte_lt [of "fst (snd u)"]
    unat_byte_lt [of "fst (snd (snd u))"] unat_byte_lt [of "snd (snd (snd u))"]
  by (cases u) (simp add: val_def)

lemma val_body: "fst u \<noteq> 255 \<Longrightarrow> val u < val (fst (body u))"
  using unat_byte_lt [of "fst u"] unat_byte_lt [of "fst (snd u)"]
    unat_byte_lt [of "fst (snd (snd u))"] unat_byte_lt [of "snd (snd (snd u))"]
  by (cases u) (auto simp: val_def body_def four_def unat_inc unat_byte_255)

subsection \<open>The main loop and the emitted stream\<close>

text \<open>
  \<^verbatim>\<open>for u[0] != 0xff { ... }\<close>: the working word at the exit of the loop and the terms
  sent by all iterations. The recursion terminates because every iteration makes the
  working word larger as a 32-bit number.
\<close>

function loop :: "word4 \<Rightarrow> word4 \<times> byte list" where
  "loop u =
     (if fst u \<noteq> 255
      then (case loop (fst (body u)) of (uf, rest) \<Rightarrow> (uf, snd (body u) @ rest))
      else (u, []))"
  by pat_completeness auto
termination
proof (relation "measure (\<lambda>u. 4294967296 - val u)")
  show "wf (measure (\<lambda>u. 4294967296 - val u))" by simp
next
  fix u :: word4
  assume "fst u \<noteq> 255"
  then show "(fst (body u), u) \<in> measure (\<lambda>u. 4294967296 - val u)"
    using val_body [of u] val_lt [of "fst (body u)"] by simp
qed

declare loop.simps [simp del]

text \<open>
  The whole of \<^verbatim>\<open>terms\<close>: \<^verbatim>\<open>ch <- 0\<close>, the loop started at the zero word, three more
  \<^verbatim>\<open>ch <- 0\<close>, then \<^verbatim>\<open>close(ch)\<close>.
\<close>

definition init :: word4 where
  "init = (0, 0, 0, 0)"

definition terms :: "byte list" where
  "terms = [0] @ snd (loop init) @ [0, 0, 0]"

text \<open>
  The working words seen by the loop test \<^verbatim>\<open>u[0] != 0xff\<close>, in order: one per iteration,
  and last the word at which the loop exits.
\<close>

function states :: "word4 \<Rightarrow> word4 list" where
  "states u = (if fst u \<noteq> 255 then u # states (fst (body u)) else [u])"
  by pat_completeness auto
termination
proof (relation "measure (\<lambda>u. 4294967296 - val u)")
  show "wf (measure (\<lambda>u. 4294967296 - val u))" by simp
next
  fix u :: word4
  assume "fst u \<noteq> 255"
  then show "(fst (body u), u) \<in> measure (\<lambda>u. 4294967296 - val u)"
    using val_body [of u] val_lt [of "fst (body u)"] by simp
qed

declare states.simps [simp del]

subsection \<open>The loop body with every increment checked\<close>

text \<open>
  The same loop body, with each \<^verbatim>\<open>++\<close> replaced by an increment that reports the
  wrap-around of a byte instead of performing it.
\<close>

datatype error = Overflow

definition inc :: "byte \<Rightarrow> error + byte" where
  "inc x = (if x = 255 then Inl Overflow else Inr (x + 1))"

definition checked_four :: "word4 \<Rightarrow> error + word4 \<times> byte list" where
  "checked_four u = (case u of (a, b, c, d) \<Rightarrow>
     (case inc d of Inl e \<Rightarrow> Inl e | Inr d' \<Rightarrow> Inr ((a, b, c, d'), [a, b, c, d'])))"

definition checked_body :: "word4 \<Rightarrow> error + word4 \<times> byte list" where
  "checked_body u = (case u of (a, b, c, d) \<Rightarrow>
     if d = 255 then
       if c = 255 then
         if b = 255 then
           (case inc a of Inl e \<Rightarrow> Inl e | Inr a' \<Rightarrow> Inr ((a', a', a', a'), [a']))
         else
           (case inc b of Inl e \<Rightarrow> Inl e | Inr b' \<Rightarrow> Inr ((a, b', a, b'), [a, b']))
       else
         (case inc c of Inl e \<Rightarrow> Inl e | Inr c' \<Rightarrow> checked_four (a, b, c', a))
     else checked_four (a, b, c, d))"

subsection \<open>Lyndon words\<close>

text \<open>
  The three shapes of a working word named by the comment of \<^verbatim>\<open>terms\<close>: a single symbol
  repeated, a pair \<open>\<alpha>\<beta>\<close> with \<open>\<alpha> < \<beta>\<close> repeated, and a Lyndon word of length 4 according to
  the four rules of the comment, in their order.
\<close>

definition single :: "word4 \<Rightarrow> bool" where
  "single u = (case u of (a, b, c, d) \<Rightarrow> a = b \<and> b = c \<and> c = d)"

definition two_cycle :: "word4 \<Rightarrow> bool" where
  "two_cycle u = (case u of (a, b, c, d) \<Rightarrow> a = c \<and> b = d \<and> a < b)"

definition lyndon4 :: "word4 \<Rightarrow> bool" where
  "lyndon4 u = (case u of (a, b, c, d) \<Rightarrow>
     if a > b \<or> a > c \<or> a > d then False
     else if a = d then False
     else if a = c then b < d
     else True)"

definition shape :: "word4 \<Rightarrow> bool" where
  "shape u = (single u \<or> two_cycle u \<or> lyndon4 u)"

text \<open>
  The definition by rotations: a string is a Lyndon word if it is lexicographically
  strictly below each of its nontrivial rotations.
\<close>

definition lyndon_rot :: "byte list \<Rightarrow> bool" where
  "lyndon_rot xs = (\<forall>n \<in> {1..<length xs}. xs < rotate n xs)"

subsection \<open>Words, streams and windows\<close>

text \<open>
  The Lyndon word that a working word stands for: the terms that the iteration arriving
  at it has sent.
\<close>

definition word_of :: "word4 \<Rightarrow> byte list" where
  "word_of u = (case u of (a, b, c, d) \<Rightarrow>
     if single u then [a] else if two_cycle u then [a, b] else [a, b, c, d])"

text \<open>
  Everything sent from a working word on: the rest of the loop and the three trailing
  terms.
\<close>

definition tail_from :: "word4 \<Rightarrow> byte list" where
  "tail_from u = snd (loop u) @ [0, 0, 0]"

text \<open>A string occurs in the stream when it is a run of consecutive terms of it.\<close>

definition occurs :: "byte list \<Rightarrow> bool" where
  "occurs t = sublist t terms"

text \<open>
  The windows of four consecutive terms of a stream, one per position, and the windows
  of a cyclic sequence, which wrap around its end.
\<close>

definition windows :: "'a list \<Rightarrow> 'a list list" where
  "windows xs = map (\<lambda>i. take 4 (drop i xs)) [0..<length xs - 3]"

definition cyclic_windows :: "'a list \<Rightarrow> 'a list list" where
  "cyclic_windows xs =
     map (\<lambda>i. map (\<lambda>j. xs ! ((i + j) mod length xs)) [0..<4]) [0..<length xs]"

subsection \<open>Counting the terms still to be sent\<close>

text \<open>
  A potential for the loop: with every slot read as its distance to 255, the number of
  terms the loop sends from a working word on, up to the word 255, 255, 255, 255.
\<close>

definition co :: "byte \<Rightarrow> int" where
  "co x = 255 - int (unat x)"

definition remaining :: "word4 \<Rightarrow> int" where
  "remaining u = (case u of (a, b, c, d) \<Rightarrow>
     co a ^ 4 + 4 * co b * co a ^ 2 + 2 * co b ^ 2 + 4 * co c * co a + 4 * co d)"

section \<open>The sink\<close>

text \<open>
  \<^verbatim>\<open>main\<close> ranges over the channel and writes to a buffered writer, which is flushed at
  the end. The writer is modelled by the bytes written to it so far; a failing write
  makes the program panic and is not part of the model. In binary mode every term is
  written with \<^verbatim>\<open>w.WriteByte(term)\<close>.
\<close>

definition write_byte :: "byte list \<Rightarrow> byte \<Rightarrow> byte list" where
  "write_byte w t = w @ [t]"

definition main_bin :: "byte list \<Rightarrow> byte list" where
  "main_bin ts = foldl write_byte [] ts"

text \<open>
  The two encoding tables of text mode: entry \<open>i\<close> is the separator followed by the decimal
  digits of \<open>i\<close>.
\<close>

definition encd :: "string list" where
  "encd = [
   ''.0'', ''.1'', ''.2'', ''.3'', ''.4'', ''.5'', ''.6'', ''.7'', ''.8'', ''.9'', ''.10'', ''.11'', ''.12'', ''.13'', ''.14'', ''.15'',
   ''.16'', ''.17'', ''.18'', ''.19'', ''.20'', ''.21'', ''.22'', ''.23'', ''.24'', ''.25'', ''.26'', ''.27'', ''.28'', ''.29'', ''.30'', ''.31'',
   ''.32'', ''.33'', ''.34'', ''.35'', ''.36'', ''.37'', ''.38'', ''.39'', ''.40'', ''.41'', ''.42'', ''.43'', ''.44'', ''.45'', ''.46'', ''.47'',
   ''.48'', ''.49'', ''.50'', ''.51'', ''.52'', ''.53'', ''.54'', ''.55'', ''.56'', ''.57'', ''.58'', ''.59'', ''.60'', ''.61'', ''.62'', ''.63'',
   ''.64'', ''.65'', ''.66'', ''.67'', ''.68'', ''.69'', ''.70'', ''.71'', ''.72'', ''.73'', ''.74'', ''.75'', ''.76'', ''.77'', ''.78'', ''.79'',
   ''.80'', ''.81'', ''.82'', ''.83'', ''.84'', ''.85'', ''.86'', ''.87'', ''.88'', ''.89'', ''.90'', ''.91'', ''.92'', ''.93'', ''.94'', ''.95'',
   ''.96'', ''.97'', ''.98'', ''.99'', ''.100'', ''.101'', ''.102'', ''.103'', ''.104'', ''.105'', ''.106'', ''.107'', ''.108'', ''.109'', ''.110'', ''.111'',
   ''.112'', ''.113'', ''.114'', ''.115'', ''.116'', ''.117'', ''.118'', ''.119'', ''.120'', ''.121'', ''.122'', ''.123'', ''.124'', ''.125'', ''.126'', ''.127'',
   ''.128'', ''.129'', ''.130'', ''.131'', ''.132'', ''.133'', ''.134'', ''.135'', ''.136'', ''.137'', ''.138'', ''.139'', ''.140'', ''.141'', ''.142'', ''.143'',
   ''.144'', ''.145'', ''.146'', ''.147'', ''.148'', ''.149'', ''.150'', ''.151'', ''.152'', ''.153'', ''.154'', ''.155'', ''.156'', ''.157'', ''.158'', ''.159'',
   ''.160'', ''.161'', ''.162'', ''.163'', ''.164'', ''.165'', ''.166'', ''.167'', ''.168'', ''.169'', ''.170'', ''.171'', ''.172'', ''.173'', ''.174'', ''.175'',
   ''.176'', ''.177'', ''.178'', ''.179'', ''.180'', ''.181'', ''.182'', ''.183'', ''.184'', ''.185'', ''.186'', ''.187'', ''.188'', ''.189'', ''.190'', ''.191'',
   ''.192'', ''.193'', ''.194'', ''.195'', ''.196'', ''.197'', ''.198'', ''.199'', ''.200'', ''.201'', ''.202'', ''.203'', ''.204'', ''.205'', ''.206'', ''.207'',
   ''.208'', ''.209'', ''.210'', ''.211'', ''.212'', ''.213'', ''.214'', ''.215'', ''.216'', ''.217'', ''.218'', ''.219'', ''.220'', ''.221'', ''.222'', ''.223'',
   ''.224'', ''.225'', ''.226'', ''.227'', ''.228'', ''.229'', ''.230'', ''.231'', ''.232'', ''.233'', ''.234'', ''.235'', ''.236'', ''.237'', ''.238'', ''.239'',
   ''.240'', ''.241'', ''.242'', ''.243'', ''.244'', ''.245'', ''.246'', ''.247'', ''.248'', ''.249'', ''.250'', ''.251'', ''.252'', ''.253'', ''.254'', ''.255'']"

definition encn :: "string list" where
  "encn = [
   ''\<newline>0'', ''\<newline>1'', ''\<newline>2'', ''\<newline>3'', ''\<newline>4'', ''\<newline>5'', ''\<newline>6'', ''\<newline>7'', ''\<newline>8'', ''\<newline>9'', ''\<newline>10'', ''\<newline>11'', ''\<newline>12'', ''\<newline>13'', ''\<newline>14'', ''\<newline>15'',
   ''\<newline>16'', ''\<newline>17'', ''\<newline>18'', ''\<newline>19'', ''\<newline>20'', ''\<newline>21'', ''\<newline>22'', ''\<newline>23'', ''\<newline>24'', ''\<newline>25'', ''\<newline>26'', ''\<newline>27'', ''\<newline>28'', ''\<newline>29'', ''\<newline>30'', ''\<newline>31'',
   ''\<newline>32'', ''\<newline>33'', ''\<newline>34'', ''\<newline>35'', ''\<newline>36'', ''\<newline>37'', ''\<newline>38'', ''\<newline>39'', ''\<newline>40'', ''\<newline>41'', ''\<newline>42'', ''\<newline>43'', ''\<newline>44'', ''\<newline>45'', ''\<newline>46'', ''\<newline>47'',
   ''\<newline>48'', ''\<newline>49'', ''\<newline>50'', ''\<newline>51'', ''\<newline>52'', ''\<newline>53'', ''\<newline>54'', ''\<newline>55'', ''\<newline>56'', ''\<newline>57'', ''\<newline>58'', ''\<newline>59'', ''\<newline>60'', ''\<newline>61'', ''\<newline>62'', ''\<newline>63'',
   ''\<newline>64'', ''\<newline>65'', ''\<newline>66'', ''\<newline>67'', ''\<newline>68'', ''\<newline>69'', ''\<newline>70'', ''\<newline>71'', ''\<newline>72'', ''\<newline>73'', ''\<newline>74'', ''\<newline>75'', ''\<newline>76'', ''\<newline>77'', ''\<newline>78'', ''\<newline>79'',
   ''\<newline>80'', ''\<newline>81'', ''\<newline>82'', ''\<newline>83'', ''\<newline>84'', ''\<newline>85'', ''\<newline>86'', ''\<newline>87'', ''\<newline>88'', ''\<newline>89'', ''\<newline>90'', ''\<newline>91'', ''\<newline>92'', ''\<newline>93'', ''\<newline>94'', ''\<newline>95'',
   ''\<newline>96'', ''\<newline>97'', ''\<newline>98'', ''\<newline>99'', ''\<newline>100'', ''\<newline>101'', ''\<newline>102'', ''\<newline>103'', ''\<newline>104'', ''\<newline>105'', ''\<newline>106'', ''\<newline>107'', ''\<newline>108'', ''\<newline>109'', ''\<newline>110'', ''\<newline>111'',
   ''\<newline>112'', ''\<newline>113'', ''\<newline>114'', ''\<newline>115'', ''\<newline>116'', ''\<newline>117'', ''\<newline>118'', ''\<newline>119'', ''\<newline>120'', ''\<newline>121'', ''\<newline>122'', ''\<newline>123'', ''\<newline>124'', ''\<newline>125'', ''\<newline>126'', ''\<newline>127'',
   ''\<newline>128'', ''\<newline>129'', ''\<newline>130'', ''\<newline>131'', ''\<newline>132'', ''\<newline>133'', ''\<newline>134'', ''\<newline>135'', ''\<newline>136'', ''\<newline>137'', ''\<newline>138'', ''\<newline>139'', ''\<newline>140'', ''\<newline>141'', ''\<newline>142'', ''\<newline>143'',
   ''\<newline>144'', ''\<newline>145'', ''\<newline>146'', ''\<newline>147'', ''\<newline>148'', ''\<newline>149'', ''\<newline>150'', ''\<newline>151'', ''\<newline>152'', ''\<newline>153'', ''\<newline>154'', ''\<newline>155'', ''\<newline>156'', ''\<newline>157'', ''\<newline>158'', ''\<newline>159'',
   ''\<newline>160'', ''\<newline>161'', ''\<newline>162'', ''\<newline>163'', ''\<newline>164'', ''\<newline>165'', ''\<newline>166'', ''\<newline>167'', ''\<newline>168'', ''\<newline>169'', ''\<newline>170'', ''\<newline>171'', ''\<newline>172'', ''\<newline>173'', ''\<newline>174'', ''\<newline>175'',
   ''\<newline>176'', ''\<newline>177'', ''\<newline>178'', ''\<newline>179'', ''\<newline>180'', ''\<newline>181'', ''\<newline>182'', ''\<newline>183'', ''\<newline>184'', ''\<newline>185'', ''\<newline>186'', ''\<newline>187'', ''\<newline>188'', ''\<newline>189'', ''\<newline>190'', ''\<newline>191'',
   ''\<newline>192'', ''\<newline>193'', ''\<newline>194'', ''\<newline>195'', ''\<newline>196'', ''\<newline>197'', ''\<newline>198'', ''\<newline>199'', ''\<newline>200'', ''\<newline>201'', ''\<newline>202'', ''\<newline>203'', ''\<newline>204'', ''\<newline>205'', ''\<newline>206'', ''\<newline>207'',
   ''\<newline>208'', ''\<newline>209'', ''\<newline>210'', ''\<newline>211'', ''\<newline>212'', ''\<newline>213'', ''\<newline>214'', ''\<newline>215'', ''\<newline>216'', ''\<newline>217'', ''\<newline>218'', ''\<newline>219'', ''\<newline>220'', ''\<newline>221'', ''\<newline>222'', ''\<newline>223'',
   ''\<newline>224'', ''\<newline>225'', ''\<newline>226'', ''\<newline>227'', ''\<newline>228'', ''\<newline>229'', ''\<newline>230'', ''\<newline>231'', ''\<newline>232'', ''\<newline>233'', ''\<newline>234'', ''\<newline>235'', ''\<newline>236'', ''\<newline>237'', ''\<newline>238'', ''\<newline>239'',
   ''\<newline>240'', ''\<newline>241'', ''\<newline>242'', ''\<newline>243'', ''\<newline>244'', ''\<newline>245'', ''\<newline>246'', ''\<newline>247'', ''\<newline>248'', ''\<newline>249'', ''\<newline>250'', ''\<newline>251'', ''\<newline>252'', ''\<newline>253'', ''\<newline>254'', ''\<newline>255'']"

text \<open>
  Text mode: \<^verbatim>\<open>w.WriteString(encs[<-ch][1:])\<close> for the first term, then
  \<^verbatim>\<open>w.WriteString(encs[term])\<close> for every further term. A receive from a channel that is
  closed and empty gives the zero byte.
\<close>

definition write_string :: "string \<Rightarrow> string \<Rightarrow> string" where
  "write_string w s = w @ s"

definition main_text :: "bool \<Rightarrow> byte list \<Rightarrow> string" where
  "main_text nl ts =
     (let encs = (if nl then encn else encd) in
      case ts of
        [] \<Rightarrow> write_string [] (drop 1 (encs ! unat (0 :: byte)))
      | t # rest \<Rightarrow>
          foldl (\<lambda>w term. write_string w (encs ! unat term))
            (write_string [] (drop 1 (encs ! unat t))) rest)"

text \<open>
  Reading the text output back: splitting a string at a separator, and parsing a field
  of decimal digits.
\<close>

fun split_on :: "char \<Rightarrow> string \<Rightarrow> string list" where
  "split_on sep [] = [[]]"
| "split_on sep (x # xs) =
     (if x = sep then [] # split_on sep xs
      else (case split_on sep xs of
              [] \<Rightarrow> [[x]]
            | f # fs \<Rightarrow> (x # f) # fs))"

definition digit_val :: "char \<Rightarrow> nat option" where
  "digit_val ch =
     (if ch = CHR ''0'' then Some 0 else if ch = CHR ''1'' then Some 1
      else if ch = CHR ''2'' then Some 2 else if ch = CHR ''3'' then Some 3
      else if ch = CHR ''4'' then Some 4 else if ch = CHR ''5'' then Some 5
      else if ch = CHR ''6'' then Some 6 else if ch = CHR ''7'' then Some 7
      else if ch = CHR ''8'' then Some 8 else if ch = CHR ''9'' then Some 9
      else None)"

fun parse_from :: "nat \<Rightarrow> string \<Rightarrow> nat option" where
  "parse_from n [] = Some n"
| "parse_from n (ch # cs) =
     (case digit_val ch of None \<Rightarrow> None | Some k \<Rightarrow> parse_from (10 * n + k) cs)"

definition parse_dec :: "string \<Rightarrow> nat option" where
  "parse_dec s = (if s = [] then None else parse_from 0 s)"

text \<open>
  An entry of an encoding table is well formed for the value \<open>i\<close> when it is the separator
  followed by a field without a dot that parses as \<open>i\<close>.
\<close>

definition entry_ok :: "char \<Rightarrow> string \<Rightarrow> nat \<Rightarrow> bool" where
  "entry_ok sep s i =
     (case s of
        [] \<Rightarrow> False
      | x # ds \<Rightarrow> x = sep \<and> CHR ''.'' \<notin> set ds \<and> parse_dec ds = Some i)"

fun entries_from :: "char \<Rightarrow> nat \<Rightarrow> string list \<Rightarrow> bool" where
  "entries_from sep i [] = True"
| "entries_from sep i (s # ss) = (entry_ok sep s i \<and> entries_from sep (i + 1) ss)"

section \<open>Basic facts about the loop\<close>

lemma emitted_step:
  "fst u \<noteq> 255 \<Longrightarrow> snd (loop u) = snd (body u) @ snd (loop (fst (body u)))"
  by (subst loop.simps) (simp split: prod.splits)

lemma emitted_exit: "fst u = 255 \<Longrightarrow> snd (loop u) = []"
  by (subst loop.simps) simp

lemma final_step: "fst u \<noteq> 255 \<Longrightarrow> fst (loop u) = fst (loop (fst (body u)))"
  by (subst loop.simps) (simp split: prod.splits)

lemma final_exit: "fst u = 255 \<Longrightarrow> fst (loop u) = u"
  by (subst loop.simps) simp

lemma lex_iff_val: "u < v \<longleftrightarrow> val u < val v"
proof (cases u; cases v)
  fix a b c d a' b' c' d'
  assume "u = (a, b, c, d)" "v = (a', b', c', d')"
  then show ?thesis
    using unat_byte_lt [of a] unat_byte_lt [of b] unat_byte_lt [of c] unat_byte_lt [of d]
     unat_byte_lt [of a'] unat_byte_lt [of b'] unat_byte_lt [of c'] unat_byte_lt [of d']
    apply (simp add: less_prod_def val_def word_less_nat_alt word_le_nat_alt)
    by arith
qed

lemma body_increases: "fst u \<noteq> 255 \<Longrightarrow> u < fst (body u)"
  by (simp add: lex_iff_val val_body)

lemma lyndon_rot4:
  "lyndon_rot [a, b, c, d] \<longleftrightarrow>
     [a, b, c, d] < [b, c, d, a] \<and> [a, b, c, d] < [c, d, a, b] \<and> [a, b, c, d] < [d, a, b, c]"
proof -
  have s: "{Suc 0..<Suc (Suc (Suc (Suc 0)))} = {Suc 0, Suc (Suc 0), Suc (Suc (Suc 0))}"
    by auto
  show ?thesis
    by (simp add: lyndon_rot_def s rotate_def)
qed

lemma byte_less_inc: "(x :: byte) \<noteq> 255 \<Longrightarrow> x < x + 1"
  by (simp add: word_less_nat_alt unat_inc)

lemma byte_le_255: "(x :: byte) \<le> 255"
  using unat_byte_lt [of x] by (simp add: word_le_nat_alt)

lemma shape_alt:
  "shape (a, b, c, d) \<longleftrightarrow> a \<le> b \<and> a \<le> c \<and> (if c = a then b \<le> d else a < d)"
  by (auto simp: shape_def single_def two_cycle_def lyndon4_def)

lemma shape_exclusive:
  "\<not> (single u \<and> two_cycle u) \<and> \<not> (single u \<and> lyndon4 u) \<and> \<not> (two_cycle u \<and> lyndon4 u)"
  by (cases u) (auto simp: single_def two_cycle_def lyndon4_def)

lemma shape_body: "shape u \<Longrightarrow> fst u \<noteq> 255 \<Longrightarrow> shape (fst (body u))"
proof (cases u)
  case (fields a b c d)
  assume "shape u" "fst u \<noteq> 255"
  with fields show ?thesis
    using byte_less_inc [of a] byte_less_inc [of b] byte_less_inc [of c] byte_less_inc [of d]
    by (auto simp: shape_alt body_def four_def)
qed

lemma shape_init: "shape init"
  by (simp add: init_def shape_alt)

lemma shape_states: "v \<in> set (states u) \<Longrightarrow> shape u \<Longrightarrow> shape v"
proof (induction u rule: states.induct)
  case (1 u)
  show ?case
  proof (cases "fst u \<noteq> 255")
    case True
    with "1.prems" have "v = u \<or> v \<in> set (states (fst (body u)))"
      by (subst (asm) states.simps) auto
    with True "1.IH" "1.prems"(2) show ?thesis
      using shape_body by blast
  next
    case False
    with "1.prems" show ?thesis
      by (subst (asm) states.simps) auto
  qed
qed

lemma states_ge: "v \<in> set (states u) \<Longrightarrow> u \<le> v"
proof (induction u rule: states.induct)
  case (1 u)
  show ?case
  proof (cases "fst u \<noteq> 255")
    case True
    with "1.prems" have "v = u \<or> v \<in> set (states (fst (body u)))"
      by (subst (asm) states.simps) auto
    then show ?thesis
    proof
      assume "v = u"
      then show ?thesis by simp
    next
      assume "v \<in> set (states (fst (body u)))"
      then have "fst (body u) \<le> v"
        using True "1.IH" by simp
      moreover have "u < fst (body u)"
        using True by (rule body_increases)
      ultimately show ?thesis
        by (rule less_imp_le [OF less_le_trans [rotated]])
    qed
  next
    case False
    with "1.prems" show ?thesis
      by (subst (asm) states.simps) auto
  qed
qed

lemma states_sorted: "sorted_wrt (<) (states u)"
proof (induction u rule: states.induct)
  case (1 u)
  show ?case
  proof (cases "fst u \<noteq> 255")
    case True
    have "\<forall>v \<in> set (states (fst (body u))). u < v"
      using states_ge [of _ "fst (body u)"] body_increases [OF True] by (blast intro: less_le_trans)
    with True "1.IH" show ?thesis
      by (subst states.simps) simp
  next
    case False
    then show ?thesis
      by (subst states.simps) simp
  qed
qed

lemma states_distinct: "distinct (states u)"
  using states_sorted [of u] strict_sorted_iff by blast

lemma final_fst: "fst (fst (loop u)) = 255"
proof (induction u rule: loop.induct)
  case (1 u)
  then show ?case
    by (cases "fst u \<noteq> 255") (simp_all add: final_step final_exit)
qed

lemma final_last: "fst (loop u) = last (states u)"
proof (induction u rule: states.induct)
  case (1 u)
  show ?case
  proof (cases "fst u \<noteq> 255")
    case True
    have ne: "states (fst (body u)) \<noteq> []"
      by (subst states.simps) simp
    from True "1.IH" ne show ?thesis
      by (subst states.simps) (simp add: final_step)
  next
    case False
    then show ?thesis
      by (subst states.simps) (simp add: final_exit)
  qed
qed

lemma states_last_two:
  "fst u \<noteq> 255 \<Longrightarrow>
   \<exists>pre v. states u = pre @ [v, fst (loop u)] \<and> fst v \<noteq> 255 \<and> fst (body v) = fst (loop u)"
proof (induction u rule: states.induct)
  case (1 u)
  let ?u' = "fst (body u)"
  show ?case
  proof (cases "fst ?u' \<noteq> 255")
    case True
    from "1.IH" [OF "1.prems" True] obtain pre v where
      h: "states ?u' = pre @ [v, fst (loop ?u')]" "fst v \<noteq> 255" "fst (body v) = fst (loop ?u')"
      by blast
    have "states u = (u # pre) @ [v, fst (loop u)]"
      using h(1) "1.prems" by (subst states.simps) (simp add: final_step)
    with h(2,3) "1.prems" show ?thesis
      by (metis final_step)
  next
    case False
    have "states ?u' = [?u']"
      using False by (subst states.simps) simp
    then have "states u = [] @ [u, fst (loop u)]"
      using False "1.prems" by (subst states.simps) (simp add: final_step final_exit)
    moreover have "fst (body u) = fst (loop u)"
      using False "1.prems" by (simp add: final_step final_exit)
    ultimately show ?thesis
      using "1.prems" by blast
  qed
qed

lemma u0_changes:
  "fst u \<noteq> 255 \<Longrightarrow> fst (fst (body u)) \<noteq> fst u \<Longrightarrow>
     snd u = (255, 255, 255) \<and> body u = ((fst u + 1, fst u + 1, fst u + 1, fst u + 1), [fst u + 1])"
  by (cases u) (auto simp: body_def four_def split: if_splits)

lemma final_init: "fst (loop init) = (255, 255, 255, 255)"
proof -
  have "shape (fst (loop init))"
  proof -
    have "states init \<noteq> []"
      by (subst states.simps) simp
    then have "last (states init) \<in> set (states init)"
      by (rule last_in_set)
    then show ?thesis
      using shape_states [OF _ shape_init] final_last [of init] by simp
  qed
  moreover obtain a b c d where f: "fst (loop init) = (a, b, c, d)"
    by (cases "fst (loop init)")
  moreover have "a = 255"
    using final_fst [of init] f by simp
  ultimately show ?thesis
    using byte_le_255 [of b] byte_le_255 [of c] byte_le_255 [of d]
    by (auto simp: shape_alt split: if_splits)
qed

lemma u0_reaches_255:
  "fst u \<noteq> 255 \<Longrightarrow> fst (fst (body u)) = 255 \<Longrightarrow> u = (254, 255, 255, 255)"
proof (cases u)
  case (fields a b c d)
  assume g: "fst u \<noteq> 255" and e: "fst (fst (body u)) = 255"
  have "a + 1 = 255 \<Longrightarrow> a = 254"
    by (metis add_diff_cancel_right' one_plus_numeral_commute
        add_diff_cancel_left' numeral_plus_one semiring_norm(5) semiring_norm(8) diff_numeral_special(2))
  with fields g e show ?thesis
    by (auto simp: body_def four_def split: if_splits)
qed

lemma loop_iterates:
  "\<exists>n. ((fst \<circ> body) ^^ n) u = fst (loop u) \<and>
       (\<forall>k < n. fst (((fst \<circ> body) ^^ k) u) \<noteq> 255)"
proof (induction u rule: loop.induct)
  case (1 u)
  show ?case
  proof (cases "fst u \<noteq> 255")
    case True
    from "1.IH" [OF True] obtain n where
      n: "((fst \<circ> body) ^^ n) (fst (body u)) = fst (loop (fst (body u)))"
         "\<forall>k < n. fst (((fst \<circ> body) ^^ k) (fst (body u))) \<noteq> 255"
      by blast
    have "((fst \<circ> body) ^^ Suc n) u = fst (loop u)"
      using n(1) True by (simp add: funpow_swap1 final_step)
    moreover have "\<forall>k < Suc n. fst (((fst \<circ> body) ^^ k) u) \<noteq> 255"
    proof (intro allI impI)
      fix k assume k: "k < Suc n"
      show "fst (((fst \<circ> body) ^^ k) u) \<noteq> 255"
      proof (cases k)
        case 0
        with True show ?thesis by simp
      next
        case (Suc j)
        with k n(2) show ?thesis
          by (simp add: funpow_swap1)
      qed
    qed
    ultimately show ?thesis by blast
  next
    case False
    then have "((fst \<circ> body) ^^ 0) u = fst (loop u)"
      by (simp add: final_exit)
    then show ?thesis by blast
  qed
qed

lemma co_inc: "x \<noteq> 255 \<Longrightarrow> co (x + 1) = co x - 1"
  by (simp add: co_def unat_inc)

lemma co_inc': "x \<noteq> 255 \<Longrightarrow> co (1 + x) = co x - 1"
  by (metis add.commute co_inc)

lemma co_255: "co 255 = 0"
  by (simp add: co_def)

lemma remaining_body:
  "fst u \<noteq> 255 \<Longrightarrow> remaining u = int (length (snd (body u))) + remaining (fst (body u))"
proof (cases u)
  case (fields a b c d)
  assume g: "fst u \<noteq> 255"
  have p4: "\<And>x :: int. (x - 1) ^ 4 = x ^ 4 - 4 * x ^ 3 + 6 * x ^ 2 - 4 * x + 1"
    by (simp add: power4_eq_xxxx power3_eq_cube power2_eq_square algebra_simps)
  have p2: "\<And>x :: int. (x - 1) ^ 2 = x ^ 2 - 2 * x + 1"
    by (simp add: power2_eq_square algebra_simps)
  from fields g show ?thesis
    by (auto simp: remaining_def body_def four_def co_inc co_inc' co_255 p4 p2 power3_eq_cube power2_eq_square algebra_simps)
qed

lemma length_loop:
  "int (length (snd (loop u))) = remaining u - remaining (fst (loop u))"
proof (induction u rule: loop.induct)
  case (1 u)
  show ?case
  proof (cases "fst u \<noteq> 255")
    case True
    have "snd (loop u) = snd (body u) @ snd (loop (fst (body u)))"
      using True by (rule emitted_step)
    moreover have "fst (loop u) = fst (loop (fst (body u)))"
      using True by (rule final_step)
    ultimately show ?thesis
      using "1.IH" [OF True] remaining_body [OF True] by simp
  next
    case False
    then show ?thesis
      by (simp add: emitted_exit final_exit)
  qed
qed

lemma length_emitted: "length (snd (loop init)) = 4294967295"
proof -
  have "remaining init = 4294967295"
    by (simp add: remaining_def init_def co_def)
  moreover have "remaining (fst (loop init)) = 0"
    by (simp add: final_init remaining_def co_def)
  ultimately have "int (length (snd (loop init))) = 4294967295"
    using length_loop [of init] by simp
  then show ?thesis by linarith
qed

lemma length_terms: "length terms = 4294967299"
  by (simp add: terms_def length_emitted)

lemma main_bin_id: "main_bin ts = ts"
proof -
  have "foldl write_byte w ts = w @ ts" for w
    by (induction ts arbitrary: w) (simp_all add: write_byte_def)
  then show ?thesis
    by (simp add: main_bin_def)
qed

lemma encd_entries: "entries_from CHR ''.'' 0 encd"
  by (simp add: encd_def entry_ok_def parse_dec_def digit_val_def)

lemma length_encd: "length encd = 256"
  by (simp add: encd_def)

lemma entries_from_nth:
  "entries_from sep i ss \<Longrightarrow> k < length ss \<Longrightarrow> entry_ok sep (ss ! k) (i + k)"
proof (induction ss arbitrary: i k)
  case Nil
  then show ?case by simp
next
  case (Cons s ss)
  show ?case
  proof (cases k)
    case 0
    with Cons.prems show ?thesis by simp
  next
    case (Suc j)
    with Cons.prems Cons.IH [of "i + 1" j] show ?thesis by simp
  qed
qed

lemma encd_nth:
  "encd ! unat (b :: byte) = CHR ''.'' # drop 1 (encd ! unat b)"
  "CHR ''.'' \<notin> set (drop 1 (encd ! unat b))"
  "parse_dec (drop 1 (encd ! unat b)) = Some (unat b)"
proof -
  have "entry_ok CHR ''.'' (encd ! unat b) (unat b)"
    using entries_from_nth [OF encd_entries, of "unat b"] unat_byte_lt [of b]
    by (simp add: length_encd)
  then show "encd ! unat b = CHR ''.'' # drop 1 (encd ! unat b)"
    "CHR ''.'' \<notin> set (drop 1 (encd ! unat b))"
    "parse_dec (drop 1 (encd ! unat b)) = Some (unat b)"
    by (simp_all add: entry_ok_def split: list.splits)
qed

lemma foldl_write_string:
  "foldl (\<lambda>w term. write_string w (f term)) w rest = w @ concat (map f rest)"
  by (induction rest arbitrary: w) (simp_all add: write_string_def)

lemma main_text_dot:
  "main_text False (t # rest) =
     drop 1 (encd ! unat t) @ concat (map (\<lambda>x. CHR ''.'' # drop 1 (encd ! unat x)) rest)"
proof -
  have "(\<lambda>x :: byte. encd ! unat x) = (\<lambda>x. CHR ''.'' # drop 1 (encd ! unat x))"
    using encd_nth(1) by blast
  moreover have "main_text False (t # rest) =
      write_string [] (drop 1 (encd ! unat t)) @ concat (map (\<lambda>x. encd ! unat x) rest)"
    by (simp add: main_text_def foldl_write_string)
  ultimately show ?thesis
    by (simp add: write_string_def)
qed

lemma split_on_no_sep: "sep \<notin> set f \<Longrightarrow> split_on sep f = [f]"
  by (induction f) auto

lemma split_on_field:
  "sep \<notin> set f \<Longrightarrow> split_on sep (f @ sep # xs) = f # split_on sep xs"
  by (induction f) auto

lemma split_on_fields:
  "sep \<notin> set f \<Longrightarrow> (\<And>x. sep \<notin> set (g x)) \<Longrightarrow>
     split_on sep (f @ concat (map (\<lambda>x. sep # g x) rest)) = f # map g rest"
proof (induction rest arbitrary: f)
  case Nil
  then show ?case by (simp add: split_on_no_sep)
next
  case (Cons r rest)
  have "split_on sep (f @ concat (map (\<lambda>x. sep # g x) (r # rest))) =
        split_on sep (f @ sep # (g r @ concat (map (\<lambda>x. sep # g x) rest)))"
    by simp
  also have "\<dots> = f # split_on sep (g r @ concat (map (\<lambda>x. sep # g x) rest))"
    using Cons.prems(1) by (rule split_on_field)
  also have "\<dots> = f # g r # map g rest"
    using Cons.IH [of "g r"] Cons.prems(2) by simp
  finally show ?case by simp
qed

lemma split_main_text:
  "split_on CHR ''.'' (main_text False (t # rest)) =
     map (\<lambda>x. drop 1 (encd ! unat x)) (t # rest)"
  unfolding main_text_dot
  using encd_nth(2) split_on_fields [of "CHR ''.''" "drop 1 (encd ! unat t)" "\<lambda>x. drop 1 (encd ! unat x)" rest]
  by simp

lemma parse_main_text:
  "map parse_dec (split_on CHR ''.'' (main_text False (t # rest))) =
     map (\<lambda>b. Some (unat b)) (t # rest)"
  unfolding split_main_text using encd_nth(3) by simp

section \<open>Every word of four symbols occurs in the stream\<close>

lemma body_four: "d \<noteq> 255 \<Longrightarrow> body (a, b, c, d) = ((a, b, c, d + 1), [a, b, c, d + 1])"
  by (simp add: body_def four_def)

lemma body_skip:
  "c \<noteq> 255 \<Longrightarrow> body (a, b, c, 255) = ((a, b, c + 1, a + 1), [a, b, c + 1, a + 1])"
  by (simp add: body_def four_def)

lemma body_two: "b \<noteq> 255 \<Longrightarrow> body (a, b, 255, 255) = ((a, b + 1, a, b + 1), [a, b + 1])"
  by (simp add: body_def)

lemma body_one: "body (a, 255, 255, 255) = ((a + 1, a + 1, a + 1, a + 1), [a + 1])"
  by (simp add: body_def)

lemma word_of_single: "word_of (a, a, a, a) = [a]"
  by (simp add: word_of_def single_def)

lemma word_of_two: "a < b \<Longrightarrow> word_of (a, b, a, b) = [a, b]"
proof -
  assume h: "a < b"
  then have "a \<noteq> b" by simp
  then have "\<not> single (a, b, a, b)"
    by (simp add: single_def)
  moreover have "two_cycle (a, b, a, b)"
    using h by (simp add: two_cycle_def)
  ultimately show ?thesis
    by (simp add: word_of_def)
qed

lemma word_of_four: "lyndon4 (a, b, c, d) \<Longrightarrow> word_of (a, b, c, d) = [a, b, c, d]"
  using shape_exclusive [of "(a, b, c, d)"] by (auto simp: word_of_def)

lemma lyndon4_alt:
  "lyndon4 (a, b, c, d) \<longleftrightarrow> a \<le> b \<and> a \<le> c \<and> a < d \<and> (c = a \<longrightarrow> b < d)"
  by (auto simp: lyndon4_def)

lemma body_word:
  assumes "shape u" "fst u \<noteq> 255"
  shows "snd (body u) = word_of (fst (body u))"
proof (cases u)
  case (fields a b c d)
  from assms(1) fields have s: "a \<le> b" "a \<le> c" "if c = a then b \<le> d else a < d"
    by (simp_all add: shape_alt)
  from assms(2) fields have a: "a \<noteq> 255" by simp
  consider (four) "d \<noteq> 255" | (skip) "d = 255" "c \<noteq> 255" | (two) "d = 255" "c = 255" "b \<noteq> 255"
    | (one) "d = 255" "c = 255" "b = 255"
    by blast
  then show ?thesis
  proof cases
    case four
    have "a < d + 1"
      using s byte_less_inc [OF four] by (auto split: if_splits)
    moreover have "c = a \<longrightarrow> b < d + 1"
      using s byte_less_inc [OF four] by (auto split: if_splits)
    ultimately have "lyndon4 (a, b, c, d + 1)"
      using s(1,2) by (simp add: lyndon4_alt)
    then show ?thesis
      using fields four by (simp add: body_four word_of_four)
  next
    case skip
    have "a < c + 1"
      using s(2) byte_less_inc [OF skip(2)] by auto
    then have "lyndon4 (a, b, c + 1, a + 1)"
      using s(1) byte_less_inc [OF a] by (auto simp: lyndon4_alt)
    then show ?thesis
      using fields skip by (simp add: body_skip word_of_four)
  next
    case two
    have "a < b + 1"
      using s(1) byte_less_inc [OF two(3)] by auto
    then show ?thesis
      using fields two by (simp add: body_two word_of_two)
  next
    case one
    then show ?thesis
      using fields by (simp add: body_one word_of_single)
  qed
qed

lemma states_closed:
  "p \<in> set (states u) \<Longrightarrow> fst p \<noteq> 255 \<Longrightarrow> fst (body p) \<in> set (states u)"
proof (induction u rule: states.induct)
  case (1 u)
  show ?case
  proof (cases "fst u \<noteq> 255")
    case True
    have s: "states u = u # states (fst (body u))"
      using True by (subst states.simps) simp
    have h: "fst (body u) \<in> set (states (fst (body u)))"
      by (subst states.simps) simp
    from "1.prems"(1) s have "p = u \<or> p \<in> set (states (fst (body u)))"
      by simp
    then show ?thesis
    proof
      assume "p = u"
      with s h show ?thesis by simp
    next
      assume "p \<in> set (states (fst (body u)))"
      with "1.IH" [OF True _ "1.prems"(2)] s show ?thesis by simp
    qed
  next
    case False
    with "1.prems" show ?thesis
      by (subst (asm) states.simps) auto
  qed
qed

lemma unat_dec: "(x :: byte) \<noteq> 0 \<Longrightarrow> unat (x - 1) = unat x - 1"
  by (simp add: unat_minus_one)

lemma byte_dec_neq_255: "(x :: byte) \<noteq> 0 \<Longrightarrow> x - 1 \<noteq> 255"
  using unat_byte_lt [of x] by (simp add: word_unat_eq_iff [of "x - 1"] unat_dec)

lemma byte_le_dec: "(y :: byte) < x \<Longrightarrow> y \<le> x - 1"
proof -
  assume h: "y < x"
  then have "x \<noteq> 0" by auto
  then show ?thesis
    using h by (simp add: word_le_nat_alt word_less_nat_alt unat_dec)
qed

lemma byte_less_dec: "(y :: byte) < x \<Longrightarrow> y \<noteq> x - 1 \<Longrightarrow> y < x - 1"
  using byte_le_dec [of y x] by simp

lemma byte_neq_0: "(y :: byte) < x \<Longrightarrow> x \<noteq> 0"
  by auto

lemma byte_less_255: "(y :: byte) < x \<Longrightarrow> y \<noteq> 255"
  using byte_le_255 [of x] by auto

lemma byte_neq_255_less: "(x :: byte) \<noteq> 255 \<Longrightarrow> x < 255"
  using byte_le_255 [of x] by auto

lemma predecessor:
  assumes "shape v" "v \<noteq> init"
  shows "\<exists>p. shape p \<and> fst p \<noteq> 255 \<and> fst (body p) = v"
proof (cases v)
  case (fields a b c d)
  from assms(1) fields have s: "a \<le> b" "a \<le> c" "if c = a then b \<le> d else a < d"
    by (simp_all add: shape_alt)
  consider (one) "b = a" "c = a" "d = a"
    | (two) "c = a" "d = b" "a < b"
    | (four_a) "c = a" "b < d"
    | (four_d) "a < c" "a < d" "d \<noteq> a + 1"
    | (skip) "a < c" "d = a + 1" "a \<noteq> 255"
  proof (cases "c = a")
    case True
    with s(3) have "b \<le> d" by simp
    then have "b = d \<or> b < d" by auto
    moreover have "a = b \<or> a < b" using s(1) by auto
    ultimately show ?thesis
      using True one two four_a by blast
  next
    case False
    with s(2,3) have "a < c" "a < d" by auto
    then show ?thesis
      using four_d skip byte_less_255 [of a d] by blast
  qed
  then show ?thesis
  proof cases
    case one
    with assms(2) fields have a0: "a \<noteq> 0"
      by (simp add: init_def)
    let ?p = "(a - 1, 255 :: byte, 255 :: byte, 255 :: byte)"
    have "shape ?p"
      using byte_dec_neq_255 [OF a0] byte_neq_255_less [of "a - 1"] byte_le_255 [of "a - 1"]
      by (auto simp: shape_alt)
    moreover have "fst ?p \<noteq> 255"
      using byte_dec_neq_255 [OF a0] by simp
    moreover have "fst (body ?p) = v"
      using one fields by (simp add: body_def)
    ultimately show ?thesis by blast
  next
    case two
    let ?p = "(a, b - 1, 255 :: byte, 255 :: byte)"
    have b0: "b \<noteq> 0" using two(3) by (rule byte_neq_0)
    have a255: "a \<noteq> 255" using two(3) by (rule byte_less_255)
    have "shape ?p"
      using byte_le_dec [OF two(3)] a255 byte_le_255 [of a] byte_neq_255_less [of a]
      by (auto simp: shape_alt)
    moreover have "fst ?p \<noteq> 255"
      using a255 by simp
    moreover have "fst (body ?p) = v"
      using two fields byte_dec_neq_255 [OF b0] by (simp add: body_def)
    ultimately show ?thesis by blast
  next
    case four_a
    let ?p = "(a, b, a, d - 1)"
    have d0: "d \<noteq> 0" using four_a(2) by (rule byte_neq_0)
    have a255: "a \<noteq> 255" using s(1) four_a(2) byte_less_255 [of b d] byte_le_255 [of b] by auto
    have "shape ?p"
      using s(1) byte_le_dec [OF four_a(2)] by (auto simp: shape_alt)
    moreover have "fst ?p \<noteq> 255"
      using a255 by simp
    moreover have "fst (body ?p) = v"
      using four_a fields byte_dec_neq_255 [OF d0] by (simp add: body_def four_def)
    ultimately show ?thesis by blast
  next
    case four_d
    let ?p = "(a, b, c, d - 1)"
    have d0: "d \<noteq> 0" using four_d(2) by (rule byte_neq_0)
    have a255: "a \<noteq> 255" using four_d(2) by (rule byte_less_255)
    have "a \<noteq> d - 1"
      using four_d(3) by auto
    then have "a < d - 1"
      using four_d(2) byte_less_dec by blast
    then have "shape ?p"
      using s(1,2) four_d(1) by (auto simp: shape_alt)
    moreover have "fst ?p \<noteq> 255"
      using a255 by simp
    moreover have "fst (body ?p) = v"
      using fields byte_dec_neq_255 [OF d0] by (simp add: body_def four_def)
    ultimately show ?thesis by blast
  next
    case skip
    let ?p = "(a, b, c - 1, 255 :: byte)"
    have c0: "c \<noteq> 0" using skip(1) by (rule byte_neq_0)
    have "shape ?p"
      using s(1) byte_le_dec [OF skip(1)] skip(3) byte_le_255 [of a] byte_le_255 [of b]
        byte_neq_255_less [of a]
      by (auto simp: shape_alt)
    moreover have "fst ?p \<noteq> 255"
      using skip(3) by simp
    moreover have "fst (body ?p) = v"
      using fields skip(2) byte_dec_neq_255 [OF c0] by (simp add: body_def four_def)
    ultimately show ?thesis by blast
  qed
qed

lemma reachable:
  "shape v \<Longrightarrow> v \<in> set (states init)"
proof (induction "val v" arbitrary: v rule: less_induct)
  case less
  show ?case
  proof (cases "v = init")
    case True
    then show ?thesis
      by (subst states.simps) simp
  next
    case False
    from predecessor [OF less.prems False] obtain p where
      p: "shape p" "fst p \<noteq> 255" "fst (body p) = v"
      by blast
    have "val p < val v"
      using val_body [OF p(2)] p(3) by simp
    then have "p \<in> set (states init)"
      using less.hyps p(1) by blast
    then show ?thesis
      using states_closed p(2,3) by blast
  qed
qed

lemma tail_step: "fst u \<noteq> 255 \<Longrightarrow> tail_from u = snd (body u) @ tail_from (fst (body u))"
  by (simp add: tail_from_def emitted_step)

lemma tail_four:
  "a \<noteq> 255 \<Longrightarrow> d \<noteq> 255 \<Longrightarrow>
     tail_from (a, b, c, d) = a # b # c # (d + 1) # tail_from (a, b, c, d + 1)"
  using tail_step [of "(a, b, c, d)"] by (simp add: body_four)

lemma tail_skip:
  "a \<noteq> 255 \<Longrightarrow> c \<noteq> 255 \<Longrightarrow>
     tail_from (a, b, c, 255) = a # b # (c + 1) # (a + 1) # tail_from (a, b, c + 1, a + 1)"
  using tail_step [of "(a, b, c, 255)"] by (simp add: body_skip)

lemma tail_two:
  "a \<noteq> 255 \<Longrightarrow> b \<noteq> 255 \<Longrightarrow>
     tail_from (a, b, 255, 255) = a # (b + 1) # tail_from (a, b + 1, a, b + 1)"
  using tail_step [of "(a, b, 255, 255)"] by (simp add: body_two)

lemma tail_one:
  "a \<noteq> 255 \<Longrightarrow> tail_from (a, 255, 255, 255) = (a + 1) # tail_from (a + 1, a + 1, a + 1, a + 1)"
  using tail_step [of "(a, 255, 255, 255)"] by (simp add: body_one)

lemma tail_exit: "tail_from (255, b, c, d) = [0, 0, 0]"
  by (simp add: tail_from_def emitted_exit)

lemma suffix_states:
  "shape u \<Longrightarrow> v \<in> set (states u) \<Longrightarrow>
     suffix (word_of v @ tail_from v) (word_of u @ tail_from u)"
proof (induction u rule: states.induct)
  case (1 u)
  show ?case
  proof (cases "fst u \<noteq> 255")
    case True
    let ?u' = "fst (body u)"
    have s: "states u = u # states ?u'"
      using True by (subst states.simps) simp
    have e: "word_of u @ tail_from u = word_of u @ (word_of ?u' @ tail_from ?u')"
      using True "1.prems"(1) by (simp add: tail_step body_word)
    from "1.prems"(2) s have "v = u \<or> v \<in> set (states ?u')"
      by simp
    then show ?thesis
    proof
      assume "v = u"
      then show ?thesis by simp
    next
      assume "v \<in> set (states ?u')"
      then have "suffix (word_of v @ tail_from v) (word_of ?u' @ tail_from ?u')"
        using "1.IH" [OF True] shape_body [OF "1.prems"(1) True] by simp
      then show ?thesis
        unfolding e by (rule suffix_appendI)
    qed
  next
    case False
    with "1.prems"(2) have "v = u"
      by (subst (asm) states.simps) simp
    then show ?thesis by simp
  qed
qed

lemma terms_stream: "terms = word_of init @ tail_from init"
  by (simp add: terms_def tail_from_def init_def word_of_single)

lemma occurs_from:
  assumes "shape u" "sublist t (word_of u @ tail_from u)"
  shows "occurs t"
proof -
  have "suffix (word_of u @ tail_from u) terms"
    unfolding terms_stream
    using suffix_states [OF shape_init reachable [OF assms(1)]] .
  then have "sublist (word_of u @ tail_from u) terms"
    by (rule suffix_imp_sublist)
  with assms(2) show ?thesis
    unfolding occurs_def by (rule sublist_order.order_trans)
qed

lemma shape_cases:
  assumes "shape (a, b, c, d)"
  obtains (single) "b = a" "c = a" "d = a"
    | (two) "c = a" "d = b" "a < b"
    | (four) "lyndon4 (a, b, c, d)"
  using assms by (auto simp: shape_def single_def two_cycle_def)

lemma sub0: "sublist [w, x, y, z] (w # x # y # z # r)"
  by (simp add: sublist_Cons_right)

lemma sub1: "sublist [w, x, y, z] (p # w # x # y # z # r)"
  by (simp add: sublist_Cons_right)

lemma sub2: "sublist [w, x, y, z] (p # q # w # x # y # z # r)"
  by (simp add: sublist_Cons_right)

lemma sub3: "sublist [w, x, y, z] (p # q # s # w # x # y # z # r)"
  by (simp add: sublist_Cons_right)

lemma tail_two_cycle:
  assumes "a < b"
  shows "\<exists>r. tail_from (a, b, a, b) = a # b # r"
proof -
  have a: "a \<noteq> 255" using assms by (rule byte_less_255)
  show ?thesis
  proof (cases "b = 255")
    case True
    then show ?thesis
      using tail_skip [OF a a, of 255] by simp
  next
    case False
    then show ?thesis
      using tail_four [OF a False, of b a] by simp
  qed
qed

lemma occ_word:
  assumes "shape (a, b, c, d)" "a \<noteq> 255"
  shows "occurs [a, b, c, d]"
  using assms(1)
proof (cases rule: shape_cases)
  case single
  have "word_of (a, a, a, a) @ tail_from (a, a, a, a) = a # a # a # a # (a + 1) # tail_from (a, a, a, a + 1)"
    using tail_four [OF assms(2) assms(2), of a a] by (simp add: word_of_single)
  then have "sublist [a, a, a, a] (word_of (a, a, a, a) @ tail_from (a, a, a, a))"
    by (simp add: sub0)
  then show ?thesis
    using occurs_from [of "(a, a, a, a)"] assms(1) single by simp
next
  case two
  from tail_two_cycle [OF two(3)] obtain r where "tail_from (a, b, a, b) = a # b # r"
    by blast
  then have "word_of (a, b, a, b) @ tail_from (a, b, a, b) = a # b # a # b # r"
    using two(3) by (simp add: word_of_two)
  then have "sublist [a, b, a, b] (word_of (a, b, a, b) @ tail_from (a, b, a, b))"
    by (simp add: sub0)
  then show ?thesis
    using occurs_from [of "(a, b, a, b)"] assms(1) two by simp
next
  case four
  then have "sublist [a, b, c, d] (word_of (a, b, c, d) @ tail_from (a, b, c, d))"
    by (simp add: word_of_four)
  then show ?thesis
    using occurs_from assms(1) by blast
qed

lemma occ_rotations:
  assumes "shape (a, b, c, d)" "a \<noteq> 255" "d \<noteq> 255"
  shows "occurs [b, c, d, a]" "occurs [c, d, a, b]" "occurs [d, a, b, c]"
proof -
  have "occurs [b, c, d, a] \<and> occurs [c, d, a, b] \<and> occurs [d, a, b, c]"
    using assms(1)
  proof (cases rule: shape_cases)
    case single
    then show ?thesis
      using occ_word [OF assms(1,2)] by simp
  next
    case two
    have "word_of (a, b, a, b) @ tail_from (a, b, a, b) =
        a # b # a # b # a # (b + 1) # tail_from (a, b, a, b + 1)"
      using tail_four [OF assms(2), of b b a] assms(3) two by (simp add: word_of_two)
    then have "sublist [b, a, b, a] (word_of (a, b, a, b) @ tail_from (a, b, a, b))"
      by (simp add: sub1)
    then have "occurs [b, a, b, a]"
      using occurs_from [of "(a, b, a, b)"] assms(1) two by simp
    then show ?thesis
      using occ_word [OF assms(1,2)] two by simp
  next
    case four
    have e: "word_of (a, b, c, d) @ tail_from (a, b, c, d) =
        a # b # c # d # a # b # c # (d + 1) # tail_from (a, b, c, d + 1)"
      using tail_four [OF assms(2,3), of b c] four by (simp add: word_of_four)
    have "sublist [b, c, d, a] (word_of (a, b, c, d) @ tail_from (a, b, c, d))"
      unfolding e by (rule sub1)
    moreover have "sublist [c, d, a, b] (word_of (a, b, c, d) @ tail_from (a, b, c, d))"
      unfolding e by (rule sub2)
    moreover have "sublist [d, a, b, c] (word_of (a, b, c, d) @ tail_from (a, b, c, d))"
      unfolding e by (rule sub3)
    ultimately show ?thesis
      using occurs_from [OF assms(1)] by blast
  qed
  then show "occurs [b, c, d, a]" "occurs [c, d, a, b]" "occurs [d, a, b, c]"
    by simp_all
qed

lemma occ_skip:
  assumes "lyndon4 (a, b, c, 255)" "c \<noteq> 255"
  shows "occurs [b, c, 255, a]" "occurs [c, 255, a, b]" "occurs [255, a, b, c + 1]"
proof -
  have a: "a \<noteq> 255"
    using assms(1) byte_less_255 [of a 255] by (simp add: lyndon4_alt)
  have s: "shape (a, b, c, 255)"
    using assms(1) by (simp add: shape_def)
  have e: "word_of (a, b, c, 255) @ tail_from (a, b, c, 255) =
        a # b # c # 255 # a # b # (c + 1) # (a + 1) # tail_from (a, b, c + 1, a + 1)"
    using tail_skip [OF a assms(2), of b] assms(1) by (simp add: word_of_four)
  have "sublist [b, c, 255, a] (word_of (a, b, c, 255) @ tail_from (a, b, c, 255))"
    unfolding e by (rule sub1)
  then show "occurs [b, c, 255, a]"
    using occurs_from [OF s] by blast
  have "sublist [c, 255, a, b] (word_of (a, b, c, 255) @ tail_from (a, b, c, 255))"
    unfolding e by (rule sub2)
  then show "occurs [c, 255, a, b]"
    using occurs_from [OF s] by blast
  have "sublist [255, a, b, c + 1] (word_of (a, b, c, 255) @ tail_from (a, b, c, 255))"
    unfolding e by (rule sub3)
  then show "occurs [255, a, b, c + 1]"
    using occurs_from [OF s] by blast
qed

lemma occ_skip_two:
  assumes "a \<noteq> 255"
  shows "occurs [255, a, 255, a + 1]"
proof -
  have l: "a < 255" using assms by (rule byte_neq_255_less)
  then have s: "shape (a, 255, a, 255)"
    by (simp add: shape_alt)
  have "word_of (a, 255, a, 255) @ tail_from (a, 255, a, 255) =
        a # 255 # a # 255 # (a + 1) # (a + 1) # tail_from (a, 255, a + 1, a + 1)"
    using tail_skip [OF assms assms, of 255] l by (simp add: word_of_two)
  then have "sublist [255, a, 255, a + 1] (word_of (a, 255, a, 255) @ tail_from (a, 255, a, 255))"
    by (simp add: sub1)
  then show ?thesis
    using occurs_from [OF s] by blast
qed

lemma occ_two:
  assumes "a \<le> b" "b \<noteq> 255"
  shows "occurs [b, 255, 255, a]" "occurs [255, 255, a, b + 1]" "occurs [255, a, b + 1, a]"
proof -
  have b: "b < 255" using assms(2) by (rule byte_neq_255_less)
  with assms(1) have a: "a \<noteq> 255" by auto
  have l: "lyndon4 (a, b, 255, 255)"
    using assms(1) a byte_neq_255_less [OF a] by (simp add: lyndon4_alt)
  then have s: "shape (a, b, 255, 255)"
    by (simp add: shape_def)
  have "a < b + 1"
    using assms(1) byte_less_inc [OF assms(2)] by auto
  from tail_two_cycle [OF this] obtain r where r: "tail_from (a, b + 1, a, b + 1) = a # (b + 1) # r"
    by blast
  have e: "word_of (a, b, 255, 255) @ tail_from (a, b, 255, 255) =
        a # b # 255 # 255 # a # (b + 1) # a # (b + 1) # r"
    using tail_two [OF a assms(2)] l r by (simp add: word_of_four)
  have "sublist [b, 255, 255, a] (word_of (a, b, 255, 255) @ tail_from (a, b, 255, 255))"
    unfolding e by (rule sub1)
  then show "occurs [b, 255, 255, a]"
    using occurs_from [OF s] by blast
  have "sublist [255, 255, a, b + 1] (word_of (a, b, 255, 255) @ tail_from (a, b, 255, 255))"
    unfolding e by (rule sub2)
  then show "occurs [255, 255, a, b + 1]"
    using occurs_from [OF s] by blast
  have "sublist [255, a, b + 1, a] (word_of (a, b, 255, 255) @ tail_from (a, b, 255, 255))"
    unfolding e by (rule sub3)
  then show "occurs [255, a, b + 1, a]"
    using occurs_from [OF s] by blast
qed

lemma occ_one:
  assumes "a \<noteq> 255" "a + 1 \<noteq> 255"
  shows "occurs [255, 255, 255, a + 1]" "occurs [255, 255, a + 1, a + 1]"
    "occurs [255, a + 1, a + 1, a + 1]"
proof -
  have l: "lyndon4 (a, 255, 255, 255)"
    using assms(1) byte_neq_255_less [OF assms(1)] by (simp add: lyndon4_alt)
  then have s: "shape (a, 255, 255, 255)"
    by (simp add: shape_def)
  have e: "word_of (a, 255, 255, 255) @ tail_from (a, 255, 255, 255) =
        a # 255 # 255 # 255 # (a + 1) # (a + 1) # (a + 1) # (a + 1) # (a + 1 + 1) #
          tail_from (a + 1, a + 1, a + 1, a + 1 + 1)"
    using tail_one [OF assms(1)] tail_four [OF assms(2) assms(2), of "a + 1" "a + 1"] l
    by (simp add: word_of_four)
  have "sublist [255, 255, 255, a + 1] (word_of (a, 255, 255, 255) @ tail_from (a, 255, 255, 255))"
    unfolding e by (rule sub1)
  then show "occurs [255, 255, 255, a + 1]"
    using occurs_from [OF s] by blast
  have "sublist [255, 255, a + 1, a + 1] (word_of (a, 255, 255, 255) @ tail_from (a, 255, 255, 255))"
    unfolding e by (rule sub2)
  then show "occurs [255, 255, a + 1, a + 1]"
    using occurs_from [OF s] by blast
  have "sublist [255, a + 1, a + 1, a + 1] (word_of (a, 255, 255, 255) @ tail_from (a, 255, 255, 255))"
    unfolding e by (rule sub3)
  then show "occurs [255, a + 1, a + 1, a + 1]"
    using occurs_from [OF s] by blast
qed

lemma occ_end:
  "occurs [255, 255, 255, 255]" "occurs [255, 255, 255, 0]" "occurs [255, 255, 0, 0]"
  "occurs [255, 0, 0, 0]"
proof -
  have l: "lyndon4 (254, 255, 255, 255)"
    by (simp add: lyndon4_alt)
  then have s: "shape (254, 255, 255, 255)"
    by (simp add: shape_def)
  have e: "word_of (254, 255, 255, 255) @ tail_from (254, 255, 255, 255) =
        [254, 255, 255, 255, 255, 0, 0, 0]"
    using tail_one [of 254] l by (simp add: word_of_four tail_exit)
  have "sublist [255, 255, 255, 255] (word_of (254, 255, 255, 255) @ tail_from (254, 255, 255, 255))"
    unfolding e by (rule sub1)
  then show "occurs [255, 255, 255, 255]"
    using occurs_from [OF s] by blast
  have "sublist [255, 255, 255, 0] (word_of (254, 255, 255, 255) @ tail_from (254, 255, 255, 255))"
    unfolding e by (rule sub2)
  then show "occurs [255, 255, 255, 0]"
    using occurs_from [OF s] by blast
  have "sublist [255, 255, 0, 0] (word_of (254, 255, 255, 255) @ tail_from (254, 255, 255, 255))"
    unfolding e by (rule sub3)
  then show "occurs [255, 255, 0, 0]"
    using occurs_from [OF s] by blast
  have "sublist [255, 0, 0, 0] (word_of (254, 255, 255, 255) @ tail_from (254, 255, 255, 255))"
    unfolding e by (simp add: sublist_Cons_right)
  then show "occurs [255, 0, 0, 0]"
    using occurs_from [OF s] by blast
qed

lemma shape_255:
  assumes "shape (255, b, c, d)"
  shows "b = 255" "c = 255" "d = 255"
  using assms byte_le_255 [of b] byte_le_255 [of c] byte_le_255 [of d]
  by (auto simp: shape_alt split: if_splits)

lemma dec_inc: "(x :: byte) - 1 + 1 = x"
  by simp

lemma occ_255_triple:
  "occurs [255, 255, 255, a]" "occurs [255, 255, a, a]" "occurs [255, a, a, a]"
proof -
  have "occurs [255, 255, 255, a] \<and> occurs [255, 255, a, a] \<and> occurs [255, a, a, a]"
  proof (cases "a = 0")
    case True
    then show ?thesis
      using occ_end by simp
  next
    case a0: False
    show ?thesis
    proof (cases "a = 255")
      case True
      then show ?thesis
        using occ_end(1) by simp
    next
      case False
      then show ?thesis
        using occ_one [of "a - 1"] byte_dec_neq_255 [OF a0] by (simp only: dec_inc) simp
    qed
  qed
  then show "occurs [255, 255, 255, a]" "occurs [255, 255, a, a]" "occurs [255, a, a, a]"
    by simp_all
qed

lemma occ_pair:
  assumes "a < b"
  shows "occurs [255, 255, a, b]" "occurs [255, a, b, a]"
proof -
  have b0: "b \<noteq> 0" using assms by (rule byte_neq_0)
  have "a \<le> b - 1" using assms by (rule byte_le_dec)
  from occ_two(2,3) [OF this byte_dec_neq_255 [OF b0]]
  show "occurs [255, 255, a, b]" "occurs [255, a, b, a]"
    by (simp_all only: dec_inc)
qed

lemma rot0:
  assumes "shape (a, b, c, d)"
  shows "occurs [a, b, c, d]"
proof (cases "a = 255")
  case True
  with assms shape_255 [of b c d] occ_end(1) show ?thesis by simp
next
  case False
  with assms show ?thesis by (rule occ_word)
qed

lemma rot1:
  assumes "shape (a, b, c, d)"
  shows "occurs [b, c, d, a]"
proof (cases "a = 255")
  case True
  with assms shape_255 [of b c d] occ_end(1) show ?thesis by simp
next
  case a: False
  show ?thesis
  proof (cases "d = 255")
    case False
    with assms a show ?thesis by (rule occ_rotations(1))
  next
    case d: True
    show ?thesis
    proof (cases "c = 255")
      case c: False
      from assms show ?thesis
      proof (cases rule: shape_cases)
        case single
        with d a show ?thesis by simp
      next
        case two
        have "a \<le> 254"
          using a unat_byte_lt [of a] by (simp add: word_le_nat_alt unat_byte_255)
        from occ_two(3) [OF this] have "occurs [255, a, 255, a]"
          by simp
        with two d show ?thesis by simp
      next
        case four
        with d c show ?thesis
          using occ_skip(1) [of a b c] by simp
      qed
    next
      case c: True
      show ?thesis
      proof (cases "b = 255")
        case True
        with c d show ?thesis
          using occ_255_triple(1) by simp
      next
        case False
        have "a \<le> b"
          using assms by (simp add: shape_alt)
        from occ_two(1) [OF this False] c d show ?thesis by simp
      qed
    qed
  qed
qed

lemma rot2:
  assumes "shape (a, b, c, d)"
  shows "occurs [c, d, a, b]"
proof (cases "a = 255")
  case True
  with assms shape_255 [of b c d] occ_end(1) show ?thesis by simp
next
  case a: False
  show ?thesis
  proof (cases "d = 255")
    case False
    with assms a show ?thesis by (rule occ_rotations(2))
  next
    case d: True
    show ?thesis
    proof (cases "c = 255")
      case c: False
      from assms show ?thesis
      proof (cases rule: shape_cases)
        case single
        with d a show ?thesis by simp
      next
        case two
        with occ_word [OF assms a] show ?thesis by simp
      next
        case four
        with d c show ?thesis
          using occ_skip(2) [of a b c] by simp
      qed
    next
      case c: True
      have "a \<le> b"
        using assms by (simp add: shape_alt)
      then have "a = b \<or> a < b" by auto
      then show ?thesis
      proof
        assume "a = b"
        with c d show ?thesis
          using occ_255_triple(2) by simp
      next
        assume "a < b"
        with c d show ?thesis
          using occ_pair(1) by simp
      qed
    qed
  qed
qed

lemma rot3:
  assumes "shape (a, b, c, d)"
  shows "occurs [d, a, b, c]"
proof (cases "a = 255")
  case True
  with assms shape_255 [of b c d] occ_end(1) show ?thesis by simp
next
  case a: False
  show ?thesis
  proof (cases "d = 255")
    case False
    with assms a show ?thesis by (rule occ_rotations(3))
  next
    case d: True
    have s: "a \<le> b" "a \<le> c"
      using assms by (simp_all add: shape_alt)
    show ?thesis
    proof (cases "c = a")
      case c: True
      from s(1) have "a = b \<or> a < b" by auto
      then show ?thesis
      proof
        assume "a = b"
        with c d show ?thesis
          using occ_255_triple(3) by simp
      next
        assume "a < b"
        with c d show ?thesis
          using occ_pair(2) by simp
      qed
    next
      case c: False
      with s(2) have l: "a < c" by auto
      then have c0: "c \<noteq> 0" by (rule byte_neq_0)
      have "a \<le> c - 1" using l by (rule byte_le_dec)
      then have "shape (a, b, c - 1, 255)"
        using s(1) a byte_neq_255_less [OF a] byte_le_255 [of b] by (simp add: shape_alt)
      then have "occurs [255, a, b, c - 1 + 1]"
      proof (cases rule: shape_cases)
        case single
        with a show ?thesis by simp
      next
        case two
        with occ_skip_two [OF a] show ?thesis by simp
      next
        case four
        then show ?thesis
          using byte_dec_neq_255 [OF c0] by (rule occ_skip(3))
      qed
      with d show ?thesis by (simp only: dec_inc)
    qed
  qed
qed

lemma some_rotation_shape:
  "shape (w, x, y, z) \<or> shape (x, y, z, w) \<or> shape (y, z, w, x) \<or> shape (z, w, x, y)"
  by (auto simp: shape_alt)

lemma all_occur: "occurs [w, x, y, z]"
  using some_rotation_shape [of w x y z] rot0 [of w x y z] rot3 [of x y z w]
    rot2 [of y z w x] rot1 [of z w x y]
  by blast

lemma length_windows: "length (windows xs) = length xs - 3"
  by (simp add: windows_def)

lemma set_windows: "set (windows xs) = {t. length t = 4 \<and> sublist t xs}"
proof (intro set_eqI iffI)
  fix t
  assume "t \<in> set (windows xs)"
  then obtain i where i: "i < length xs - 3" "t = take 4 (drop i xs)"
    by (auto simp: windows_def)
  have "xs = take i xs @ take 4 (drop i xs) @ drop 4 (drop i xs)"
    by (simp only: append_take_drop_id)
  then have "sublist t xs"
    using i(2) by (metis sublist_appendI)
  moreover have "length t = 4"
    using i by simp
  ultimately show "t \<in> {t. length t = 4 \<and> sublist t xs}"
    by simp
next
  fix t
  assume "t \<in> {t. length t = 4 \<and> sublist t xs}"
  then obtain p s where h: "length t = 4" "xs = p @ t @ s"
    by (auto simp: sublist_def)
  have "length p < length xs - 3"
    using h by simp
  moreover have "t = take 4 (drop (length p) xs)"
    using h by simp
  ultimately show "t \<in> set (windows xs)"
    unfolding windows_def by (metis (no_types, lifting) atLeastLessThan_iff imageI list.set_map set_upt zero_le)
qed

lemma length4: "length t = 4 \<Longrightarrow> \<exists>w x y z. t = [w, x, y, z]"
  by (cases t; simp; case_tac list; simp; case_tac lista; simp; case_tac listb; simp)

lemma set_windows_terms: "set (windows terms) = {t. length t = 4}"
proof -
  have "sublist t terms" if "length t = 4" for t
    using length4 [OF that] all_occur by (auto simp: occurs_def)
  then show ?thesis
    unfolding set_windows by blast
qed

lemma card_words4: "card {t :: byte list. length t = 4} = 4294967296"
  using card_lists_length_eq [of "UNIV :: byte set" 4] by (simp add: card_word)

lemma distinct_windows_terms: "distinct (windows terms)"
proof (rule card_distinct)
  show "card (set (windows terms)) = length (windows terms)"
    by (simp add: set_windows_terms card_words4 length_windows length_terms)
qed

lemma loop_start: "snd (loop init) = snd (body init) @ snd (loop (0, 0, 0, 1))"
  using emitted_step [of init] by (simp add: init_def body_def four_def)

lemma body_init: "body init = ((0, 0, 0, 1), [0, 0, 0, 1])"
  by (simp add: init_def body_def four_def)

lemma terms_start: "take 4 terms = [0, 0, 0, 0]"
  by (simp add: terms_def loop_start body_init)

lemma terms_nth_low: "k < 3 \<Longrightarrow> terms ! k = 0"
proof -
  assume k: "k < 3"
  have "take 4 terms ! k = 0"
    using k unfolding terms_start
    by (cases k; simp; case_tac nat; simp; case_tac nata; simp)
  then show ?thesis
    using k by simp
qed

lemma terms_nth_high:
  assumes "4294967296 \<le> k" "k < 4294967299"
  shows "terms ! k = 0"
proof -
  let ?front = "[0] @ snd (loop init)"
  have l: "length ?front = 4294967296"
    by (simp add: length_emitted)
  have "terms = ?front @ [0, 0, 0]"
    by (simp add: terms_def)
  then have "terms ! k = [0, 0, 0 :: byte] ! (k - 4294967296)"
    using assms(1) l by (metis nth_append not_less)
  moreover have "k - 4294967296 < 3"
    using assms by simp
  ultimately show ?thesis
    by (cases "k - 4294967296"; simp; case_tac nat; simp; case_tac nata; simp)
qed

lemma cyclic_nth:
  assumes "i < 4294967296" "j < 4"
  shows "take 4294967296 terms ! ((i + j) mod 4294967296) = terms ! (i + j)"
proof (cases "i + j < 4294967296")
  case True
  then show ?thesis by simp
next
  case False
  then have m: "(i + j) mod 4294967296 = i + j - 4294967296"
    using assms by (simp add: mod_if)
  have "i + j - 4294967296 < 3"
    using assms False by simp
  then have "take 4294967296 terms ! (i + j - 4294967296) = 0"
    using terms_nth_low by simp
  moreover have "terms ! (i + j) = 0"
    using False assms by (intro terms_nth_high) simp_all
  ultimately show ?thesis
    using m by simp
qed

lemma cyclic_windows_terms: "cyclic_windows (take 4294967296 terms) = windows terms"
proof -
  have "map (\<lambda>j. take 4294967296 terms ! ((i + j) mod 4294967296)) [0..<4] =
      take 4 (drop i terms)" if i: "i < 4294967296" for i
  proof (rule nth_equalityI)
    show "length (map (\<lambda>j. take 4294967296 terms ! ((i + j) mod 4294967296)) [0..<4]) =
        length (take 4 (drop i terms))"
      using i by (simp add: length_terms)
  next
    fix j
    assume "j < length (map (\<lambda>j. take 4294967296 terms ! ((i + j) mod 4294967296)) [0..<4])"
    then have j: "j < 4" by simp
    then show "map (\<lambda>j. take 4294967296 terms ! ((i + j) mod 4294967296)) [0..<4] ! j =
        take 4 (drop i terms) ! j"
      using cyclic_nth [OF i j] i by (simp add: length_terms)
  qed
  then show ?thesis
    by (simp add: cyclic_windows_def windows_def length_terms)
qed

section \<open>Claims\<close>

text \<open>
  C7: the first four terms emitted by the generator are 0, 0, 0, 0. The first of them is
  the initial forced term; the other three are the first three symbols sent by the loop,
  whose first iteration, at the zero word, sends 0, 0, 0, 1.
\<close>

theorem first_four_terms:
  "take 4 terms = [0, 0, 0, 0] \<and>
   take 1 terms = [0] \<and>
   take 3 (snd (loop init)) = [0, 0, 0] \<and>
   take 4 terms = [0] @ take 3 (snd (loop init)) \<and>
   snd (body init) = [0, 0, 0, 1] \<and>
   take 4 (snd (loop init)) = snd (body init)"
proof -
  have l: "snd (loop init) = [0, 0, 0, 1] @ snd (loop (0, 0, 0, 1))"
    using loop_start by (simp add: body_init)
  have "take 3 (snd (loop init)) = [0, 0, 0]"
    by (simp add: l)
  moreover have "take 4 (snd (loop init)) = snd (body init)"
    by (simp add: l body_init)
  moreover have "take 1 terms = [0]"
    by (simp add: terms_def)
  moreover have "take 4 terms = [0] @ take 3 (snd (loop init))"
    by (simp add: terms_def l)
  ultimately show ?thesis
    using terms_start by (simp add: body_init)
qed

text \<open>
  C4: for every word of four symbols, the four-case rule of the comment of \<^verbatim>\<open>terms\<close>
  classifies it as a Lyndon word exactly when the word is lexicographically strictly
  below each of its three nontrivial rotations.
\<close>

theorem lyndon4_iff_rotations: "lyndon4 (a, b, c, d) \<longleftrightarrow> lyndon_rot [a, b, c, d]"
  unfolding lyndon_rot4 by (auto simp: lyndon4_def)

theorem lyndon4_iff_rotations_witness:
  "lyndon4 (0, 0, 0, 1) \<and> lyndon_rot [0, 0, 0, 1] \<and>
   \<not> lyndon4 (1, 2, 1, 2) \<and> \<not> lyndon_rot [1, 2, 1, 2]"
  using lyndon4_iff_rotations [of 0 0 0 1] lyndon4_iff_rotations [of 1 2 1 2]
  by (simp add: lyndon4_def)

text \<open>
  C5: at the top of every iteration of the main loop (and at its exit) the working word
  has exactly one of three shapes: one symbol repeated, a pair \<open>\<alpha>\<beta>\<close> with \<open>\<alpha> < \<beta>\<close> repeated,
  or a Lyndon word of length 4 by the rule of the comment.
\<close>

theorem working_word_shape:
  "u \<in> set (states init) \<Longrightarrow>
    (single u \<or> two_cycle u \<or> lyndon4 u) \<and>
    \<not> (single u \<and> two_cycle u) \<and> \<not> (single u \<and> lyndon4 u) \<and> \<not> (two_cycle u \<and> lyndon4 u)"
  using shape_states [OF _ shape_init, of u] shape_exclusive [of u]
  by (simp add: shape_def)

theorem working_word_shape_witness:
  "(0, 0, 0, 1) \<in> set (states init) \<and> lyndon4 (0, 0, 0, 1) \<and>
   \<not> single (0, 0, 0, 1) \<and> \<not> two_cycle (0, 0, 0, 1)"
proof -
  have m: "(0, 0, 0, 1) \<in> set (states init)"
    using states.simps [of init] states.simps [of "(0, 0, 0, 1)"]
    by (simp add: init_def body_def four_def)
  show ?thesis
    using m working_word_shape [OF m] by (simp add: single_def two_cycle_def)
qed

text \<open>
  C9: no increment of a slot of the working word wraps around. In every state in which
  the loop body runs, the body with checked increments reports no overflow and computes
  what the loop body computes.
\<close>

theorem increments_never_wrap: "fst u \<noteq> 255 \<Longrightarrow> checked_body u = Inr (body u)"
  by (cases u) (auto simp: checked_body_def body_def checked_four_def four_def inc_def)

theorem increments_never_wrap_witness:
  "fst (254 :: byte, 255 :: byte, 255 :: byte, 255 :: byte) \<noteq> 255 \<and>
   checked_body (254, 255, 255, 255) = Inr ((255, 255, 255, 255), [255])"
  using increments_never_wrap [of "(254, 255, 255, 255)"] by (simp add: body_def)

text \<open>
  C10: every iteration of the main loop makes the working word strictly larger in the
  lexicographic order of 4-tuples, which is the order of their values as big-endian
  32-bit numbers; so the working words of a run are strictly increasing and none repeats.
\<close>

theorem working_word_increases:
  "(fst u \<noteq> 255 \<longrightarrow> u < fst (body u) \<and> val u < val (fst (body u))) \<and>
   (\<forall>v w :: word4. v < w \<longleftrightarrow> val v < val w) \<and>
   sorted_wrt (<) (states init) \<and> distinct (states init)"
  using body_increases [of u] val_body [of u] lex_iff_val states_sorted [of init]
    states_distinct [of init]
  by blast

theorem working_word_increases_witness:
  "fst init \<noteq> 255 \<and> init < (0, 0, 0, 1) \<and> val init < val (0, 0, 0, 1)"
  using working_word_increases [of init] by (simp add: init_def body_def four_def)

text \<open>
  C6: the main loop terminates; it exits when \<^verbatim>\<open>u[0]\<close> reaches 255, which only the
  increment of the 1-element branch can bring about, that branch being the only place
  where \<^verbatim>\<open>u[0]\<close> changes; the last iteration is the one from the word 254, 255, 255,
  255. After the loop three 0 terms are sent, so the stream ends with 0, 0, 0.
\<close>

theorem loop_terminates:
  "(\<exists>n. ((fst \<circ> body) ^^ n) init = fst (loop init) \<and>
        (\<forall>k < n. fst (((fst \<circ> body) ^^ k) init) \<noteq> 255)) \<and>
   fst (loop init) = (255, 255, 255, 255) \<and>
   (\<exists>pre. states init = pre @ [(254, 255, 255, 255), (255, 255, 255, 255)]) \<and>
   body (254, 255, 255, 255) = ((255, 255, 255, 255), [255]) \<and>
   (\<forall>u. fst u \<noteq> 255 \<and> fst (fst (body u)) \<noteq> fst u \<longrightarrow>
        snd u = (255, 255, 255) \<and> fst (fst (body u)) = fst u + 1) \<and>
   (\<forall>u. fst u \<noteq> 255 \<and> fst (fst (body u)) = 255 \<longrightarrow> u = (254, 255, 255, 255)) \<and>
   terms = [0] @ snd (loop init) @ [0, 0, 0] \<and>
   drop (length terms - 3) terms = [0, 0, 0]"
proof -
  have i: "fst init \<noteq> 255"
    by (simp add: init_def)
  from states_last_two [OF i] obtain pre v where
    h: "states init = pre @ [v, fst (loop init)]" "fst v \<noteq> 255" "fst (body v) = fst (loop init)"
    by blast
  have v: "v = (254, 255, 255, 255)"
    using u0_reaches_255 [of v] h(2,3) final_init by simp
  have "\<exists>pre. states init = pre @ [(254, 255, 255, 255), (255, 255, 255, 255)]"
    using h(1) v final_init by auto
  moreover have "\<forall>u. fst u \<noteq> 255 \<and> fst (fst (body u)) \<noteq> fst u \<longrightarrow>
        snd u = (255, 255, 255) \<and> fst (fst (body u)) = fst u + 1"
  proof (intro allI impI)
    fix u :: word4
    assume "fst u \<noteq> 255 \<and> fst (fst (body u)) \<noteq> fst u"
    then show "snd u = (255, 255, 255) \<and> fst (fst (body u)) = fst u + 1"
      using u0_changes [of u] by simp
  qed
  moreover have "\<forall>u. fst u \<noteq> 255 \<and> fst (fst (body u)) = 255 \<longrightarrow> u = (254, 255, 255, 255)"
    using u0_reaches_255 by blast
  moreover have "body (254, 255, 255, 255) = ((255, 255, 255, 255), [255])"
    by (simp add: body_def)
  moreover have "drop (length terms - 3) terms = [0, 0, 0]"
    by (simp add: terms_def)
  moreover note loop_iterates [of init] final_init
  moreover have "terms = [0] @ snd (loop init) @ [0, 0, 0]"
    by (simp add: terms_def)
  ultimately show ?thesis
    by (intro conjI)
qed

theorem loop_terminates_witness:
  "fst (3 :: byte, 255 :: byte, 255 :: byte, 255 :: byte) \<noteq> 255 \<and>
   fst (fst (body (3, 255, 255, 255))) \<noteq> fst (3 :: byte, 255 :: byte, 255 :: byte, 255 :: byte) \<and>
   fst (fst (body (3, 255, 255, 255))) = 4"
proof -
  have h: "fst (3 :: byte, 255 :: byte, 255 :: byte, 255 :: byte) \<noteq> 255 \<and>
      fst (fst (body (3, 255, 255, 255))) \<noteq> fst (3 :: byte, 255 :: byte, 255 :: byte, 255 :: byte)"
    by (simp add: body_def)
  from loop_terminates have
    "\<forall>u. fst u \<noteq> 255 \<and> fst (fst (body u)) \<noteq> fst u \<longrightarrow>
        snd u = (255, 255, 255) \<and> fst (fst (body u)) = fst u + 1"
    by blast
  with h have "fst (fst (body (3, 255, 255, 255))) = fst (3 :: byte, 255 :: byte, 255 :: byte, 255 :: byte) + 1"
    by blast
  with h show ?thesis by simp
qed

text \<open>
  C2 claims that the generator sends exactly 2^32 terms in all, the initial term, the
  terms of the loop and the three trailing terms together. The stream is longer.
\<close>

theorem terms_count_not_2_32: "length terms \<noteq> 2 ^ 32"
  by (simp add: length_terms)

text \<open>
  C2, as amended: the generator sends 2^32 + 3 terms in all before it closes the channel:
  the initial term, 2^32 - 1 terms from the loop, and the three trailing terms.
\<close>

theorem terms_count:
  "terms = [0] @ snd (loop init) @ [0, 0, 0] \<and>
   length (snd (loop init)) = 2 ^ 32 - 1 \<and>
   length terms = 2 ^ 32 + 3"
  by (simp add: terms_def length_emitted)

text \<open>
  C3: in binary mode the output is the emitted terms themselves, one byte per term with
  nothing before, between or after them, and its length is 2^32 + 3 bytes.
\<close>

theorem binary_output:
  "main_bin ts = ts \<and> length (main_bin terms) = 2 ^ 32 + 3 \<and> length terms = 2 ^ 32 + 3"
  by (simp add: main_bin_id length_terms)

text \<open>
  C8: in text mode with the dot separator the first term is written without its
  separator and every later term as a dot followed by its field; splitting the output at
  the dots and parsing every field as a decimal number gives back, in order, the bytes
  that binary mode writes. This holds for every nonempty stream of terms and so for the
  stream of the generator.
\<close>

theorem text_round_trip:
  "(ts \<noteq> [] \<longrightarrow>
      main_text False ts =
        drop 1 (encd ! unat (hd ts)) @ concat (map (\<lambda>x. CHR ''.'' # drop 1 (encd ! unat x)) (tl ts)) \<and>
      map parse_dec (split_on CHR ''.'' (main_text False ts)) =
        map (\<lambda>b. Some (unat b)) (main_bin ts)) \<and>
   map parse_dec (split_on CHR ''.'' (main_text False terms)) =
     map (\<lambda>b. Some (unat b)) (main_bin terms)"
proof -
  have g: "map parse_dec (split_on CHR ''.'' (main_text False xs)) =
      map (\<lambda>b. Some (unat b)) (main_bin xs)" if "xs \<noteq> []" for xs
    using that parse_main_text [of "hd xs" "tl xs"] by (simp add: main_bin_id)
  have d: "main_text False xs =
      drop 1 (encd ! unat (hd xs)) @ concat (map (\<lambda>x. CHR ''.'' # drop 1 (encd ! unat x)) (tl xs))"
    if "xs \<noteq> []" for xs
    using that main_text_dot [of "hd xs" "tl xs"] by simp
  have "terms \<noteq> []"
    by (simp add: terms_def)
  then show ?thesis
    using g [of terms] g [of ts] d [of ts] by blast
qed

theorem text_round_trip_witness:
  "[7, 0, 255 :: byte] \<noteq> [] \<and> main_text False [7, 0, 255] = ''7.0.255'' \<and>
   map parse_dec (split_on CHR ''.'' ''7.0.255'') = [Some 7, Some 0, Some 255] \<and>
   main_bin [7, 0, 255] = [7, 0, 255]"
proof -
  have t: "main_text False [7, 0, 255] = ''7.0.255''"
    by (simp add: main_text_def write_string_def encd_def)
  have ne: "[7, 0, 255 :: byte] \<noteq> []"
    by simp
  with text_round_trip [of "[7, 0, 255]"]
  have "map parse_dec (split_on CHR ''.'' (main_text False [7, 0, 255])) =
      map (\<lambda>b. Some (unat b)) (main_bin [7, 0, 255 :: byte])"
    by blast
  then show ?thesis
    by (simp add: t main_bin_id)
qed

text \<open>
  C1: the windows of four consecutive terms at the 2^32 positions of the emitted stream
  are pairwise distinct, and their set is the set of all words of four bytes, so each
  word occurs exactly once. They are the windows of the cyclic sequence formed by the
  first 2^32 terms, the three trailing terms and the initial terms giving the wraparound.
\<close>

theorem de_bruijn:
  "length (windows terms) = 2 ^ 32 \<and>
   distinct (windows terms) \<and>
   set (windows terms) = {t. length t = 4} \<and>
   cyclic_windows (take (2 ^ 32) terms) = windows terms"
  using distinct_windows_terms set_windows_terms cyclic_windows_terms
  by (simp add: length_windows length_terms)

end
